theory Spec2Isabelle
  imports Main "HOL-Library.Sublist"
begin

section \<open>The conversion script \<^verbatim>\<open>convert.py\<close>\<close>

text \<open>
  The script is a module-level sequence of statements: it computes three directories from
  its own location, creates the output directory, globs the downloads directory for
  \<^verbatim>\<open>*.usdz\<close>, leaves with status 1 when the glob is empty, and otherwise runs a
  \<^verbatim>\<open>for\<close> loop that resets the host application, imports one file, exports it as GLB
  and prints a line.

  The path arithmetic (\<^verbatim>\<open>os.path\<close>) and the glob (\<^verbatim>\<open>glob\<close>, \<^verbatim>\<open>fnmatch\<close>) are
  pure functions of strings and directory listings; they are embedded as HOL functions,
  in their POSIX form (\<^verbatim>\<open>posixpath\<close>; \<^verbatim>\<open>os.path.normcase\<close> is the identity there).
  The operating system and the host application are a parameter: a record of operations
  on a world \<open>'w\<close>, each of the effectful ones returning either a fault (the exception it
  raises) or the next world.
\<close>

subsection \<open>\<^verbatim>\<open>os.path\<close> on POSIX\<close>

text \<open>
  \<^verbatim>\<open>join(a, b)\<close>: \<^verbatim>\<open>b\<close> alone when it begins with a slash, \<^verbatim>\<open>a + b\<close> when
  \<^verbatim>\<open>a\<close> is empty or ends with a slash, \<^verbatim>\<open>a + '/' + b\<close> otherwise.
\<close>

definition join :: "string \<Rightarrow> string \<Rightarrow> string" where
  "join a b =
     (if take 1 b = ''/'' then b
      else if a = [] \<or> last a = CHR ''/'' then a @ b
      else a @ ''/'' @ b)"

text \<open>\<^verbatim>\<open>basename(p)\<close> is \<^verbatim>\<open>p[p.rfind('/') + 1:]\<close>: what follows the last slash.\<close>

definition basename :: "string \<Rightarrow> string" where
  "basename p = rev (takeWhile (\<lambda>c. c \<noteq> CHR ''/'') (rev p))"

text \<open>
  \<^verbatim>\<open>dirname(p)\<close> is \<^verbatim>\<open>head = p[:p.rfind('/') + 1]\<close>, with its trailing slashes
  stripped unless \<^verbatim>\<open>head\<close> is empty or made of slashes only.
\<close>

definition rstrip_sep :: "string \<Rightarrow> string" where
  "rstrip_sep s = rev (dropWhile (\<lambda>c. c = CHR ''/'') (rev s))"

definition dirname :: "string \<Rightarrow> string" where
  "dirname p =
     (let head = rev (dropWhile (\<lambda>c. c \<noteq> CHR ''/'') (rev p)) in
      if head \<noteq> [] \<and> \<not> list_all (\<lambda>c. c = CHR ''/'') head then rstrip_sep head else head)"

text \<open>\<^verbatim>\<open>split(p)\<close> returns the pair of the two.\<close>

definition split_path :: "string \<Rightarrow> string \<times> string" where
  "split_path p = (dirname p, basename p)"

text \<open>
  \<^verbatim>\<open>splitext(p)\<close>: the extension starts at the last dot of the last path component,
  provided some character of that component before the dot is not itself a dot (leading
  dots do not start an extension); otherwise the extension is empty.
\<close>

definition splitext :: "string \<Rightarrow> string \<times> string" where
  "splitext p =
     (let tail = basename p;
          head = take (length p - length tail) p;
          ext = rev (takeWhile (\<lambda>c. c \<noteq> CHR ''.'') (rev tail));
          root = take (length tail - length ext - 1) tail
      in if CHR ''.'' \<in> set tail \<and> \<not> list_all (\<lambda>c. c = CHR ''.'') root
         then (head @ root, CHR ''.'' # ext)
         else (p, []))"

subsection \<open>\<^verbatim>\<open>fnmatch\<close>\<close>

text \<open>
  \<^verbatim>\<open>fnmatch.translate\<close> reads a pattern from left to right: \<^verbatim>\<open>*\<close> matches any
  string, \<^verbatim>\<open>?\<close> any one character, and \<^verbatim>\<open>[\<close> opens a bracket expression when a
  closing \<^verbatim>\<open>]\<close> follows (after an optional \<^verbatim>\<open>!\<close> and an optional immediate
  \<^verbatim>\<open>]\<close>, which belong to the body); a \<^verbatim>\<open>[\<close> that is never closed is a literal.
  Every other character matches itself. The pattern must match the whole name. (The library
  merges a run of stars into one, which matches the same names; each star is kept here.)
\<close>

datatype tok = Star | AnyChar | Lit char | Class string

definition bracket_end :: "string \<Rightarrow> (string \<times> string) option" where
  "bracket_end r =
     (let a = (if take 1 r = ''!'' then ''!'' else []);
          r1 = drop (length a) r;
          b = (if take 1 r1 = '']'' then '']'' else []);
          r2 = drop (length b) r1;
          body = takeWhile (\<lambda>c. c \<noteq> CHR '']'') r2;
          r3 = dropWhile (\<lambda>c. c \<noteq> CHR '']'') r2
      in if r3 = [] then None else Some (a @ b @ body, tl r3))"

function translate :: "string \<Rightarrow> tok list" where
  "translate [] = []"
| "translate (c # cs) =
     (if c = CHR ''*'' then Star # translate cs
      else if c = CHR ''?'' then AnyChar # translate cs
      else if c = CHR ''['' then
        (case bracket_end cs of
           None \<Rightarrow> Lit c # translate cs
         | Some (stuff, rest) \<Rightarrow> Class stuff # translate rest)
      else Lit c # translate cs)"
  by pat_completeness auto
termination
proof (relation "measure length")
  fix c :: char and cs x2 stuff rest
  assume h: "bracket_end cs = Some x2" "(stuff, rest) = x2"
  define a where "a = (if take 1 cs = ''!'' then ''!'' else [])"
  define r1 where "r1 = drop (length a) cs"
  define b where "b = (if take 1 r1 = '']'' then '']'' else [])"
  define r2 where "r2 = drop (length b) r1"
  define r3 where "r3 = dropWhile (\<lambda>c. c \<noteq> CHR '']'') r2"
  from h have "rest = tl r3"
    unfolding bracket_end_def a_def r1_def b_def r2_def r3_def Let_def
    by (auto split: if_splits)
  moreover have "length r3 \<le> length r2"
    unfolding r3_def by (rule length_dropWhile_le)
  moreover have "length r2 \<le> length cs" unfolding r2_def r1_def by simp
  ultimately show "(rest, c # cs) \<in> measure length" by simp
qed auto

text \<open>
  Matching a name against the translated pattern. What a bracket expression with a given
  body accepts is decided by the regular-expression engine; it is the parameter \<open>cls\<close>.
\<close>

fun matches :: "(string \<Rightarrow> char \<Rightarrow> bool) \<Rightarrow> tok list \<Rightarrow> string \<Rightarrow> bool" where
  "matches cls [] s = (s = [])"
| "matches cls (Star # ts) [] = matches cls ts []"
| "matches cls (Star # ts) (c # s) = (matches cls ts (c # s) \<or> matches cls (Star # ts) s)"
| "matches cls (AnyChar # ts) [] = False"
| "matches cls (AnyChar # ts) (c # s) = matches cls ts s"
| "matches cls (Lit a # ts) [] = False"
| "matches cls (Lit a # ts) (c # s) = (a = c \<and> matches cls ts s)"
| "matches cls (Class b # ts) [] = False"
| "matches cls (Class b # ts) (c # s) = (cls b c \<and> matches cls ts s)"

text \<open>\<^verbatim>\<open>fnmatch.filter(names, pat)\<close> keeps the names that match, in order.\<close>

definition fnmatch_filter :: "(string \<Rightarrow> char \<Rightarrow> bool) \<Rightarrow> string list \<Rightarrow> string \<Rightarrow> string list" where
  "fnmatch_filter cls names pat = filter (matches cls (translate pat)) names"

subsection \<open>The environment: operating system and host application\<close>

text \<open>An exception raised by a call; the script catches none.\<close>

datatype fault = Exception string

text \<open>The keyword arguments of \<^verbatim>\<open>bpy.ops.export_scene.gltf\<close> that the script passes.\<close>

record gltf_args =
  filepath :: string
  export_format :: string
  export_image_format :: string
  export_image_add_webp :: bool
  export_image_quality :: int
  export_draco_mesh_compression_enable :: bool
  export_draco_mesh_compression_level :: int

text \<open>
  The operations the script calls, on a world \<open>'w\<close> (file system and host scene):
  \<^item> \<open>makedirs path exist_ok\<close> is \<^verbatim>\<open>os.makedirs\<close>;
  \<^item> \<open>listdir\<close> gives the entry names of a directory as \<^verbatim>\<open>os.scandir\<close> yields them
    (none when the directory cannot be read; the empty path is the current directory),
    \<open>isdir\<close> and \<open>lexists\<close> are the tests of \<^verbatim>\<open>os.path\<close>; the glob reads the file
    system through these three only;
  \<^item> \<open>in_class body c\<close> tells whether the bracket expression with that body accepts
    the character;
  \<^item> \<open>read_factory_settings use_empty\<close>, \<open>usd_import filepath\<close> and
    \<open>export_scene_gltf args\<close> are the three operators of \<^verbatim>\<open>bpy.ops\<close>;
  \<^item> \<open>print_line s\<close> is \<^verbatim>\<open>print(s)\<close>: the exception it raises in this world, if it
    raises one (standard output cannot encode the line, or is closed). The line itself is
    kept in the log of the run; the world stays as it is.
\<close>

record 'w env =
  makedirs :: "string \<Rightarrow> bool \<Rightarrow> 'w \<Rightarrow> fault + 'w"
  listdir :: "string \<Rightarrow> 'w \<Rightarrow> string list"
  isdir :: "string \<Rightarrow> 'w \<Rightarrow> bool"
  lexists :: "string \<Rightarrow> 'w \<Rightarrow> bool"
  in_class :: "string \<Rightarrow> char \<Rightarrow> bool"
  read_factory_settings :: "bool \<Rightarrow> 'w \<Rightarrow> fault + 'w"
  usd_import :: "string \<Rightarrow> 'w \<Rightarrow> fault + 'w"
  export_scene_gltf :: "gltf_args \<Rightarrow> 'w \<Rightarrow> fault + 'w"
  print_line :: "string \<Rightarrow> 'w \<Rightarrow> fault option"

subsection \<open>\<^verbatim>\<open>glob.glob\<close>\<close>

text \<open>
  \<^verbatim>\<open>has_magic\<close> searches for one of \<^verbatim>\<open>*\<close>, \<^verbatim>\<open>?\<close>, \<^verbatim>\<open>[\<close>;
  \<^verbatim>\<open>_ishidden\<close> tests the first character (names and patterns are never empty
  where it is called).
\<close>

definition has_magic :: "string \<Rightarrow> bool" where
  "has_magic s = (\<exists>c \<in> set s. c = CHR ''*'' \<or> c = CHR ''?'' \<or> c = CHR ''['')"

definition ishidden :: "string \<Rightarrow> bool" where
  "ishidden p = (take 1 p = ''.'')"

text \<open>
  \<^verbatim>\<open>_glob1\<close> lists the directory (directories only when \<open>dironly\<close>), drops the
  hidden names unless the pattern itself is hidden, and filters with \<^verbatim>\<open>fnmatch\<close>.
  \<^verbatim>\<open>_glob0\<close> serves a literal last component.
\<close>

definition glob1 :: "'w env \<Rightarrow> 'w \<Rightarrow> string \<Rightarrow> string \<Rightarrow> bool \<Rightarrow> string list" where
  "glob1 e w dir pattern dironly =
     (let names = filter (\<lambda>n. \<not> dironly \<or> isdir e (join dir n) w) (listdir e dir w);
          names = (if \<not> ishidden pattern then filter (\<lambda>x. \<not> ishidden x) names else names)
      in fnmatch_filter (in_class e) names pattern)"

definition glob0 :: "'w env \<Rightarrow> 'w \<Rightarrow> string \<Rightarrow> string \<Rightarrow> bool \<Rightarrow> string list" where
  "glob0 e w dir base dironly =
     (if base \<noteq> [] then (if lexists e (join dir base) w then [base] else [])
      else if isdir e dir w then [base] else [])"

text \<open>
  \<^verbatim>\<open>_iglob\<close> (non-recursive mode, no \<^verbatim>\<open>root_dir\<close>): a pattern without magic is
  tested for existence; otherwise the directory part is itself expanded when it has
  magic, and the last component is matched in each directory so obtained.
\<close>

function iglob :: "'w env \<Rightarrow> 'w \<Rightarrow> bool \<Rightarrow> string \<Rightarrow> string list" where
  "iglob e w dironly pathname =
     (let dir = dirname pathname; base = basename pathname in
      if \<not> has_magic pathname then
        (if base \<noteq> [] then (if lexists e pathname w then [pathname] else [])
         else if isdir e dir w then [pathname] else [])
      else if dir = [] then glob1 e w [] base dironly
      else
        let dirs = (if dir \<noteq> pathname \<and> has_magic dir then iglob e w True dir else [dir])
        in concat (map (\<lambda>d. map (join d)
                     (if has_magic base then glob1 e w d base dironly
                      else glob0 e w d base dironly)) dirs))"
  by pat_completeness auto
termination
proof (relation "measure (\<lambda>(e, w, dironly, pathname). length pathname)")
  fix e :: "'w env" and w :: 'w and dironly :: bool and pathname x xa :: string
  assume h: "x = dirname pathname" "x \<noteq> pathname \<and> has_magic x"
  have pre: "prefix (rev (dropWhile P (rev s))) s" for P and s :: string
  proof -
    have "s = rev (dropWhile P (rev s)) @ rev (takeWhile P (rev s))"
      by (metis rev_append rev_rev_ident takeWhile_dropWhile_id)
    then show ?thesis by (metis prefixI)
  qed
  define head where "head = rev (dropWhile (\<lambda>c. c \<noteq> CHR ''/'') (rev pathname))"
  have "prefix head pathname" unfolding head_def by (rule pre)
  moreover have "prefix (rstrip_sep head) head" unfolding rstrip_sep_def by (rule pre)
  moreover have "x = head \<or> x = rstrip_sep head"
    using h(1) unfolding dirname_def head_def [symmetric] Let_def by (simp split: if_splits)
  ultimately have "prefix x pathname" by (metis prefix_order.trans)
  with h(2) have "length x < length pathname"
    by (metis prefix_order.le_neq_trans prefix_length_less)
  then show "((e, w, True, x), e, w, dironly, pathname)
      \<in> measure (\<lambda>(e, w, dironly, pathname). length pathname)" by simp
qed auto

text \<open>\<^verbatim>\<open>glob.glob(pathname)\<close> is the list of what \<^verbatim>\<open>_iglob\<close> yields.\<close>

definition glob :: "'w env \<Rightarrow> 'w \<Rightarrow> string \<Rightarrow> string list" where
  "glob e w pathname = iglob e w False pathname"

subsection \<open>The script\<close>

text \<open>
  A run is observed through its log, the calls it makes in order, each with the world it
  is made in, and through the way it ends: falling off the end of the module,
  \<^verbatim>\<open>sys.exit\<close> with a status, or an exception nobody catches.
\<close>

datatype call =
    Makedirs string bool
  | ReadFactorySettings bool
  | UsdImport string
  | ExportSceneGltf gltf_args
  | Print string

datatype outcome = Finished | SysExit int | Unhandled fault

text \<open>The keyword arguments of the export call (lines 20 to 28), for a given \<^verbatim>\<open>glb_path\<close>.\<close>

definition export_args :: "string \<Rightarrow> gltf_args" where
  "export_args glb_path =
     \<lparr> filepath = glb_path,
       export_format = ''GLB'',
       export_image_format = ''WEBP'',
       export_image_add_webp = False,
       export_image_quality = 15,
       export_draco_mesh_compression_enable = True,
       export_draco_mesh_compression_level = 6 \<rparr>"

text \<open>Lines 14 and 15: the output path of an input path.\<close>

definition glb_path_of :: "string \<Rightarrow> string \<Rightarrow> string" where
  "glb_path_of output_dir usdz_path =
     (let name = fst (splitext (basename usdz_path))
      in join output_dir (name @ ''.glb''))"

text \<open>
  The body of the loop (lines 14 to 29): the calls made for one file and either the fault
  that ended them (a fault of the reset, the import, the export or the \<^verbatim>\<open>print\<close>) or
  the world after the \<^verbatim>\<open>print\<close>.
\<close>

definition loop_body ::
  "'w env \<Rightarrow> string \<Rightarrow> string \<Rightarrow> 'w \<Rightarrow> (call \<times> 'w) list \<times> (fault + 'w)" where
  "loop_body e output_dir usdz_path w =
     (let glb_path = glb_path_of output_dir usdz_path;
          c1 = (ReadFactorySettings True, w) in
      case read_factory_settings e True w of
        Inl f \<Rightarrow> ([c1], Inl f)
      | Inr w1 \<Rightarrow>
          let c2 = (UsdImport usdz_path, w1) in
          (case usd_import e usdz_path w1 of
             Inl f \<Rightarrow> ([c1, c2], Inl f)
           | Inr w2 \<Rightarrow>
               let c3 = (ExportSceneGltf (export_args glb_path), w2) in
               (case export_scene_gltf e (export_args glb_path) w2 of
                  Inl f \<Rightarrow> ([c1, c2, c3], Inl f)
                | Inr w3 \<Rightarrow>
                    let c4 = (Print (''DONE: '' @ glb_path), w3) in
                    (case print_line e (''DONE: '' @ glb_path) w3 of
                       Some f \<Rightarrow> ([c1, c2, c3, c4], Inl f)
                     | None \<Rightarrow> ([c1, c2, c3, c4], Inr w3)))))"

text \<open>The \<^verbatim>\<open>for\<close> loop over \<^verbatim>\<open>usdz_files\<close> (line 13).\<close>

fun for_loop ::
  "'w env \<Rightarrow> string \<Rightarrow> string list \<Rightarrow> 'w \<Rightarrow> (call \<times> 'w) list \<times> outcome" where
  "for_loop e output_dir [] w = ([], Finished)"
| "for_loop e output_dir (p # ps) w =
     (case loop_body e output_dir p w of
        (l, Inl f) \<Rightarrow> (l, Unhandled f)
      | (l, Inr w') \<Rightarrow>
          (case for_loop e output_dir ps w' of (l', r) \<Rightarrow> (l @ l', r)))"

text \<open>
  Lines 3 to 5: the directories; \<open>abs_file\<close> is \<^verbatim>\<open>os.path.abspath(__file__)\<close>, the
  absolute path of the script.
\<close>

definition script_dir :: "string \<Rightarrow> string" where
  "script_dir abs_file = dirname abs_file"

definition downloads_dir :: "string \<Rightarrow> string" where
  "downloads_dir abs_file = join (script_dir abs_file) ''downloads''"

definition output_dir :: "string \<Rightarrow> string" where
  "output_dir abs_file = join (script_dir abs_file) ''output''"

text \<open>Line 8: the files the loop will run over, in the world left by \<^verbatim>\<open>makedirs\<close>.\<close>

definition usdz_files :: "'w env \<Rightarrow> string \<Rightarrow> 'w \<Rightarrow> string list" where
  "usdz_files e abs_file w = glob e w (join (downloads_dir abs_file) ''*.usdz'')"

text \<open>
  The directories whose entries the glob of line 8 matches against \<^verbatim>\<open>*.usdz\<close>: the
  downloads directory, unless the path of the script's directory has magic and is expanded.
\<close>

definition search_dirs :: "'w env \<Rightarrow> string \<Rightarrow> 'w \<Rightarrow> string list" where
  "search_dirs e af w =
     (if has_magic (script_dir af) then iglob e w True (downloads_dir af) else [downloads_dir af])"


text \<open>The whole module, lines 3 to 29.\<close>

definition convert :: "'w env \<Rightarrow> string \<Rightarrow> 'w \<Rightarrow> (call \<times> 'w) list \<times> outcome" where
  "convert e abs_file w0 =
     (let c0 = (Makedirs (output_dir abs_file) True, w0) in
      case makedirs e (output_dir abs_file) True w0 of
        Inl f \<Rightarrow> ([c0], Unhandled f)
      | Inr w1 \<Rightarrow>
          if usdz_files e abs_file w1 = []
          then (let c1 = (Print ''No .usdz files found in downloads/'', w1) in
                case print_line e ''No .usdz files found in downloads/'' w1 of
                  Some f \<Rightarrow> ([c0, c1], Unhandled f)
                | None \<Rightarrow> ([c0, c1], SysExit 1))
          else (case for_loop e (output_dir abs_file) (usdz_files e abs_file w1) w1 of
                  (l, r) \<Rightarrow> (c0 # l, r)))"

text \<open>
  Projections of a log: the calls alone, the lines given to \<^verbatim>\<open>print\<close>, the exports,
  the imports.
\<close>

definition calls :: "(call \<times> 'w) list \<Rightarrow> call list" where
  "calls l = map fst l"

fun printed :: "call list \<Rightarrow> string list" where
  "printed [] = []"
| "printed (Print s # cs) = s # printed cs"
| "printed (c # cs) = printed cs"

fun exported :: "call list \<Rightarrow> gltf_args list" where
  "exported [] = []"
| "exported (ExportSceneGltf a # cs) = a # exported cs"
| "exported (c # cs) = exported cs"

fun imported :: "call list \<Rightarrow> string list" where
  "imported [] = []"
| "imported (UsdImport p # cs) = p # imported cs"
| "imported (c # cs) = imported cs"

text \<open>
  The step sequence of one iteration as the specification words it: reset to an empty
  factory-default scene, import, export with the fixed options, print the completion line.
\<close>

definition iteration_steps :: "string \<Rightarrow> string \<Rightarrow> call list" where
  "iteration_steps out p =
     [ReadFactorySettings True,
      UsdImport p,
      ExportSceneGltf (export_args (glb_path_of out p)),
      Print (''DONE: '' @ glb_path_of out p)]"

text \<open>
  What a logged call does to the world it is made in, and the property that each call of
  a log is made in the world the call before it left: nothing runs in between, nothing
  runs twice.
\<close>

fun perform :: "'w env \<Rightarrow> call \<Rightarrow> 'w \<Rightarrow> fault + 'w" where
  "perform e (Makedirs p ok) w = makedirs e p ok w"
| "perform e (ReadFactorySettings b) w = read_factory_settings e b w"
| "perform e (UsdImport p) w = usd_import e p w"
| "perform e (ExportSceneGltf a) w = export_scene_gltf e a w"
| "perform e (Print s) w = (case print_line e s w of Some f \<Rightarrow> Inl f | None \<Rightarrow> Inr w)"

fun threaded :: "'w env \<Rightarrow> (call \<times> 'w) list \<Rightarrow> bool" where
  "threaded e [] = True"
| "threaded e [x] = True"
| "threaded e (x # y # l) = (perform e (fst x) (snd x) = Inr (snd y) \<and> threaded e (y # l))"

text \<open>
  Every import of a log directly follows a reset with \<^verbatim>\<open>use_empty=True\<close> and is made
  in the world that reset returned.
\<close>

definition reset_first :: "'w env \<Rightarrow> (call \<times> 'w) list \<Rightarrow> bool" where
  "reset_first e l =
     (\<forall>i p. i < length l \<and> fst (l ! i) = UsdImport p \<longrightarrow>
        0 < i \<and> fst (l ! (i - 1)) = ReadFactorySettings True \<and>
        read_factory_settings e True (snd (l ! (i - 1))) = Inr (snd (l ! i)))"



text \<open>The result of the last call of a log.\<close>

definition ends :: "'w env \<Rightarrow> (call \<times> 'w) list \<Rightarrow> fault + 'w" where
  "ends e l = perform e (fst (last l)) (snd (last l))"


subsection \<open>Example environments\<close>

text \<open>
  A small world for concrete runs: the scene of the host (the paths imported since the last
  reset) and the files, each path with what it holds; an export puts the scene at its path.
  Initially the scene is the start-up scene and the output directory holds one old file.
\<close>

record world =
  scene :: "string list"
  files :: "(string \<times> string list) list"

definition w_init :: world where
  "w_init = \<lparr> scene = [''Cube''], files = [(''/srv/output/old.glb'', [''Old''])] \<rparr>"

definition file_at :: "world \<Rightarrow> string \<Rightarrow> string list option" where
  "file_at w q = map_of (files w) q"

text \<open>
  The script is \<^verbatim>\<open>/srv/convert.py\<close>; \<^verbatim>\<open>/srv/downloads\<close> holds five entries and a
  subdirectory. The host fails to import the paths listed in \<open>bad\<close>.
\<close>

definition srv_listdir :: "string \<Rightarrow> string list" where
  "srv_listdir d =
     (if d = ''/srv/downloads''
      then [''chair.usdz'', ''.hidden.usdz'', ''LAMP.USDZ'', ''notes.txt'', ''sub'', ''a.b.usdz'']
      else if d = ''/srv/downloads/sub'' then [''deep.usdz'']
      else if d = ''/srv'' then [''convert.py'', ''downloads'']
      else if d = ''/'' then [''srv'']
      else [])"

definition srv_env :: "string list \<Rightarrow> world env" where
  "srv_env bad =
     \<lparr> makedirs = (\<lambda>p ok w. Inr w),
       listdir = (\<lambda>d w. srv_listdir d),
       isdir = (\<lambda>p w. p \<in> {''/'', ''/srv'', ''/srv/downloads'', ''/srv/downloads/sub''}),
       lexists = (\<lambda>p w. p \<in> {''/'', ''/srv'', ''/srv/downloads'', ''/srv/downloads/sub''}),
       in_class = (\<lambda>body c. c \<in> set body),
       read_factory_settings = (\<lambda>use_empty w. Inr (w\<lparr>scene := []\<rparr>)),
       usd_import = (\<lambda>p w. if p \<in> set bad then Inl (Exception ''import failed'')
                            else Inr (w\<lparr>scene := scene w @ [p]\<rparr>)),
       export_scene_gltf = (\<lambda>a w. Inr (w\<lparr>files := (filepath a, scene w) # files w\<rparr>)),
       print_line = (\<lambda>s w. None) \<rparr>"


text \<open>
  A script kept in a directory whose name has a bracket, \<^verbatim>\<open>/srv/[ab]/convert.py\<close>, with
  one file in its downloads directory, beside two directories \<^verbatim>\<open>/srv/a\<close> and
  \<^verbatim>\<open>/srv/b\<close> that each have a downloads directory of their own.
\<close>

definition bracket_listdir :: "string \<Rightarrow> string list" where
  "bracket_listdir d =
     (if d = ''/srv/[ab]/downloads'' then [''table.usdz'']
      else if d = ''/srv/a/downloads'' then [''chair.usdz'']
      else if d = ''/srv/b/downloads'' then [''chair.usdz'']
      else if d = ''/srv/[ab]'' then [''convert.py'', ''downloads'']
      else if d = ''/srv/a'' then [''downloads'']
      else if d = ''/srv/b'' then [''downloads'']
      else if d = ''/srv'' then [''[ab]'', ''a'', ''b'']
      else if d = ''/'' then [''srv'']
      else [])"

definition bracket_dirs :: "string list" where
  "bracket_dirs =
     [''/'', ''/srv'', ''/srv/[ab]'', ''/srv/a'', ''/srv/b'',
      ''/srv/[ab]/downloads'', ''/srv/a/downloads'', ''/srv/b/downloads'']"

definition bracket_env :: "world env" where
  "bracket_env =
     \<lparr> makedirs = (\<lambda>p ok w. Inr w),
       listdir = (\<lambda>d w. bracket_listdir d),
       isdir = (\<lambda>p w. p \<in> set bracket_dirs),
       lexists = (\<lambda>p w. p \<in> set bracket_dirs),
       in_class = (\<lambda>body c. c \<in> set body),
       read_factory_settings = (\<lambda>use_empty w. Inr (w\<lparr>scene := []\<rparr>)),
       usd_import = (\<lambda>p w. Inr (w\<lparr>scene := scene w @ [p]\<rparr>)),
       export_scene_gltf = (\<lambda>a w. Inr (w\<lparr>files := (filepath a, scene w) # files w\<rparr>)),
       print_line = (\<lambda>s w. None) \<rparr>"

section \<open>Properties of the path functions\<close>

lemma basename_no_sep: "CHR ''/'' \<notin> set (basename p)"
  unfolding basename_def using set_takeWhileD by fastforce

lemma takeWhile_all: "a \<notin> set n \<Longrightarrow> takeWhile (\<lambda>c. c \<noteq> a) n = n"
  by (induction n) auto

lemma basename_id: "CHR ''/'' \<notin> set n \<Longrightarrow> basename n = n"
  unfolding basename_def by (subst takeWhile_all) auto

lemma basename_append_sep: "CHR ''/'' \<notin> set n \<Longrightarrow> basename (d @ CHR ''/'' # n) = n"
proof -
  assume n: "CHR ''/'' \<notin> set n"
  then have "takeWhile (\<lambda>c. c \<noteq> CHR ''/'') (rev n @ CHR ''/'' # rev d) = rev n"
    by (subst takeWhile_append2) auto
  then show ?thesis unfolding basename_def by simp
qed

lemma join_cases:
  "CHR ''/'' \<notin> set n \<Longrightarrow> join d n = n \<and> d = [] \<or> (\<exists>d'. join d n = d' @ CHR ''/'' # n)"
proof -
  assume n: "CHR ''/'' \<notin> set n"
  then have nb: "take 1 n \<noteq> ''/''" by (cases n) auto
  show ?thesis
  proof (cases "d = []")
    case True
    then show ?thesis unfolding join_def using nb by simp
  next
    case False
    then obtain d' c where d: "d = d' @ [c]" by (metis rev_exhaust)
    show ?thesis
    proof (cases "c = CHR ''/''")
      case True
      then have "join d n = d' @ CHR ''/'' # n" unfolding join_def using nb d by simp
      then show ?thesis by blast
    next
      case False
      then have "join d n = d @ CHR ''/'' # n" unfolding join_def using nb d by simp
      then show ?thesis by blast
    qed
  qed
qed

lemma basename_join: "CHR ''/'' \<notin> set n \<Longrightarrow> basename (join d n) = n"
  using join_cases [of n d] by (auto simp: basename_id basename_append_sep)

lemma join_plain:
  "CHR ''/'' \<notin> set n \<Longrightarrow> d \<noteq> [] \<Longrightarrow> last d \<noteq> CHR ''/'' \<Longrightarrow> join d n = d @ CHR ''/'' # n"
  unfolding join_def by (cases n) auto
lemma dirname_append_sep:
  "CHR ''/'' \<notin> set n \<Longrightarrow> d \<noteq> [] \<Longrightarrow> last d \<noteq> CHR ''/'' \<Longrightarrow> dirname (d @ CHR ''/'' # n) = d"
proof -
  assume n: "CHR ''/'' \<notin> set n" and d: "d \<noteq> []" "last d \<noteq> CHR ''/''"
  have "dropWhile (\<lambda>c. c \<noteq> CHR ''/'') (rev n @ CHR ''/'' # rev d) = CHR ''/'' # rev d"
    using n by (subst dropWhile_append2) auto
  then have head: "rev (dropWhile (\<lambda>c. c \<noteq> CHR ''/'') (rev (d @ CHR ''/'' # n))) = d @ ''/''"
    by simp
  from d have "hd (rev d) \<noteq> CHR ''/''" "rev d \<noteq> []" by (simp_all add: hd_rev)
  then have "dropWhile (\<lambda>c. c = CHR ''/'') (rev d) = rev d" by (cases "rev d") auto
  then have strip: "rstrip_sep (d @ ''/'') = d" unfolding rstrip_sep_def by simp
  have "last d \<in> set d" using d by simp
  then have "\<not> list_all (\<lambda>c. c = CHR ''/'') (d @ ''/'')"
    using d(2) by (auto simp: list_all_iff)
  then show ?thesis unfolding dirname_def head Let_def using strip by simp
qed

lemma dirname_join:
  "CHR ''/'' \<notin> set n \<Longrightarrow> d \<noteq> [] \<Longrightarrow> last d \<noteq> CHR ''/'' \<Longrightarrow> dirname (join d n) = d"
  by (simp add: join_plain dirname_append_sep)

lemma stem_no_sep: "CHR ''/'' \<notin> set (fst (splitext (basename p)))"
proof -
  have b: "basename (basename p) = basename p" by (rule basename_id [OF basename_no_sep])
  show ?thesis
    unfolding splitext_def b Let_def using basename_no_sep [of p]
    by (auto dest: in_set_takeD)
qed

section \<open>Properties of the glob\<close>

lemma matches_lits: "matches cls (map Lit xs) s \<longleftrightarrow> s = xs"
proof (induction xs arbitrary: s)
  case Nil
  then show ?case by simp
next
  case (Cons x xs)
  then show ?case by (cases s) auto
qed

lemma matches_star_lits: "matches cls (Star # map Lit xs) s \<longleftrightarrow> suffix xs s"
proof (induction s)
  case Nil
  then show ?case using matches_lits [of cls xs "[]"] by auto
next
  case (Cons c s)
  then show ?case using matches_lits [of cls xs "c # s"] by (auto simp: suffix_Cons)
qed

lemma translate_usdz: "translate ''*.usdz'' = Star # map Lit ''.usdz''"
  by simp

lemma fnmatch_usdz: "fnmatch_filter cls names ''*.usdz'' = filter (suffix ''.usdz'') names"
  unfolding fnmatch_filter_def translate_usdz using matches_star_lits [of cls "''.usdz''"]
  by (metis (full_types))

lemma glob1_usdz:
  "glob1 e w d ''*.usdz'' False =
     filter (\<lambda>n. \<not> ishidden n \<and> suffix ''.usdz'' n) (listdir e d w)"
  unfolding glob1_def Let_def fnmatch_usdz by (simp add: ishidden_def conj_commute)

lemma downloads_dir_shape: "\<exists>x. downloads_dir af = x @ ''downloads''"
  unfolding downloads_dir_def join_def by auto

lemma downloads_dir_last: "downloads_dir af \<noteq> [] \<and> last (downloads_dir af) \<noteq> CHR ''/''"
  using downloads_dir_shape [of af] by auto



lemma pattern_split:
  "dirname (join (downloads_dir af) ''*.usdz'') = downloads_dir af"
  "basename (join (downloads_dir af) ''*.usdz'') = ''*.usdz''"
  using downloads_dir_last [of af] by (simp_all add: dirname_join basename_join)

lemma has_magic_append: "has_magic (a @ b) \<longleftrightarrow> has_magic a \<or> has_magic b"
  unfolding has_magic_def by auto

lemma has_magic_join_plain:
  "\<not> has_magic n \<Longrightarrow> CHR ''/'' \<notin> set n \<Longrightarrow> has_magic (join d n) \<longleftrightarrow> has_magic d"
  unfolding join_def by (cases n) (auto simp: has_magic_def)

lemma has_magic_downloads: "has_magic (downloads_dir af) \<longleftrightarrow> has_magic (script_dir af)"
  unfolding downloads_dir_def by (rule has_magic_join_plain) (simp_all add: has_magic_def)

lemma usdz_files_eq:
  "usdz_files e af w =
     concat (map (\<lambda>d. map (join d)
               (filter (\<lambda>n. \<not> ishidden n \<and> suffix ''.usdz'' n) (listdir e d w)))
        (search_dirs e af w))"
proof -
  let ?dl = "downloads_dir af"
  let ?pat = "join ?dl ''*.usdz''"
  have m: "has_magic ?pat" unfolding join_def by (auto simp: has_magic_def)
  have ne: "?dl \<noteq> []" using downloads_dir_last [of af] by simp
  have neq: "?dl \<noteq> ?pat" using downloads_dir_last [of af] by (simp add: join_plain)
  have mb: "has_magic ''*.usdz''" by (simp add: has_magic_def)
  show ?thesis
    unfolding usdz_files_def glob_def search_dirs_def
    by (subst iglob.simps)
       (simp add: pattern_split m ne neq mb glob1_usdz has_magic_downloads Let_def del: iglob.simps)
qed

lemma usdz_files_literal:
  "\<not> has_magic (script_dir af) \<Longrightarrow>
   usdz_files e af w =
     map (join (downloads_dir af))
       (filter (\<lambda>n. \<not> ishidden n \<and> suffix ''.usdz'' n) (listdir e (downloads_dir af) w))"
  by (simp add: usdz_files_eq search_dirs_def)

section \<open>Properties of the loop\<close>

lemma threaded_append:
  "threaded e l \<Longrightarrow> threaded e l' \<Longrightarrow> l \<noteq> [] \<Longrightarrow> (l' \<noteq> [] \<Longrightarrow> ends e l = Inr (snd (hd l')))
   \<Longrightarrow> threaded e (l @ l')"
proof (induction e l rule: threaded.induct)
  case (1 e)
  then show ?case by simp
next
  case (2 e x)
  then show ?case by (cases l') (simp_all add: ends_def)
next
  case (3 e x y l)
  then show ?case by (simp add: ends_def)
qed

lemma ends_append: "l' \<noteq> [] \<Longrightarrow> ends e (l @ l') = ends e l'"
  by (simp add: ends_def)

lemma loop_body_Inr:
  assumes "loop_body e out p w = (l, Inr w')"
  shows "calls l = iteration_steps out p \<and> threaded e l \<and> snd (hd l) = w \<and> ends e l = Inr w'"
  using assms unfolding loop_body_def Let_def iteration_steps_def calls_def ends_def
  by (auto split: sum.splits option.splits)

lemma loop_body_Inl:
  assumes "loop_body e out p w = (l, Inl f)"
  shows "(\<exists>k \<in> {1, 2, 3, 4}. calls l = take k (iteration_steps out p)) \<and> threaded e l
         \<and> snd (hd l) = w \<and> ends e l = Inl f"
  using assms unfolding loop_body_def Let_def iteration_steps_def calls_def ends_def
  by (auto split: sum.splits option.splits)

lemma loop_body_nonempty: "fst (loop_body e out p w) \<noteq> []"
  unfolding loop_body_def Let_def by (auto split: sum.splits option.splits)

lemma for_loop_threaded:
  "for_loop e out ps w = (l, r) \<Longrightarrow> threaded e l \<and> (l \<noteq> [] \<longrightarrow> snd (hd l) = w)"
proof (induction ps arbitrary: w l r)
  case Nil
  then show ?case by simp
next
  case (Cons p ps)
  obtain l1 r1 where b: "loop_body e out p w = (l1, r1)" by (cases "loop_body e out p w")
  have ne: "l1 \<noteq> []" using loop_body_nonempty [of e out p w] b by simp
  show ?case
  proof (cases r1)
    case (Inl f)
    with b Cons.prems have "l = l1" by simp
    with loop_body_Inl [of e out p w l1 f] b Inl show ?thesis by simp
  next
    case (Inr w')
    obtain l2 r2 where f: "for_loop e out ps w' = (l2, r2)" by (cases "for_loop e out ps w'")
    from b Inr f Cons.prems have l: "l = l1 @ l2" by simp
    from loop_body_Inr [of e out p w l1 w'] b Inr
    have h1: "threaded e l1" "snd (hd l1) = w" "ends e l1 = Inr w'" by simp_all
    from Cons.IH [OF f] have h2: "threaded e l2" "l2 \<noteq> [] \<longrightarrow> snd (hd l2) = w'" by simp_all
    have "threaded e (l1 @ l2)" by (rule threaded_append) (use h1 h2 ne in auto)
    then show ?thesis using l ne h1 by simp
  qed
qed

lemma for_loop_Finished:
  "for_loop e out ps w = (l, Finished) \<Longrightarrow> calls l = concat (map (iteration_steps out) ps)"
proof (induction ps arbitrary: w l)
  case Nil
  then show ?case by (simp add: calls_def)
next
  case (Cons p ps)
  obtain l1 r1 where b: "loop_body e out p w = (l1, r1)" by (cases "loop_body e out p w")
  show ?case
  proof (cases r1)
    case (Inl f)
    with b Cons.prems show ?thesis by simp
  next
    case (Inr w')
    obtain l2 r2 where f: "for_loop e out ps w' = (l2, r2)" by (cases "for_loop e out ps w'")
    from b Inr f Cons.prems have l: "l = l1 @ l2" "r2 = Finished" by simp_all
    from loop_body_Inr [of e out p w l1 w'] b Inr have "calls l1 = iteration_steps out p" by simp
    moreover from Cons.IH [of w' l2] f l
    have "calls l2 = concat (map (iteration_steps out) ps)" by simp
    ultimately show ?thesis using l by (simp add: calls_def)
  qed
qed

lemma for_loop_Unhandled:
  "for_loop e out ps w = (l, Unhandled f) \<Longrightarrow>
     \<exists>pre p post k. ps = pre @ p # post \<and> k \<in> {1, 2, 3, 4} \<and>
        calls l = concat (map (iteration_steps out) pre) @ take k (iteration_steps out p) \<and>
        ends e l = Inl f"
proof (induction ps arbitrary: w l)
  case Nil
  then show ?case by simp
next
  case (Cons p ps)
  obtain l1 r1 where b: "loop_body e out p w = (l1, r1)" by (cases "loop_body e out p w")
  show ?case
  proof (cases r1)
    case (Inl f')
    with b Cons.prems have l: "l = l1" "f' = f" by simp_all
    from loop_body_Inl [of e out p w l1 f] b Inl l
    obtain k where "k \<in> {1, 2, 3, 4}" "calls l1 = take k (iteration_steps out p)" "ends e l1 = Inl f"
      by blast
    then have "p # ps = [] @ p # ps \<and> k \<in> {1, 2, 3, 4} \<and>
        calls l = concat (map (iteration_steps out) []) @ take k (iteration_steps out p) \<and>
        ends e l = Inl f" using l by simp
    then show ?thesis by blast
  next
    case (Inr w')
    obtain l2 r2 where f: "for_loop e out ps w' = (l2, r2)" by (cases "for_loop e out ps w'")
    from b Inr f Cons.prems have l: "l = l1 @ l2" "r2 = Unhandled f" by simp_all
    from loop_body_Inr [of e out p w l1 w'] b Inr have c1: "calls l1 = iteration_steps out p" by simp
    from Cons.IH [of w' l2] f l obtain pre q post k where
      h: "ps = pre @ q # post" "k \<in> {1, 2, 3, 4}"
         "calls l2 = concat (map (iteration_steps out) pre) @ take k (iteration_steps out q)"
         "ends e l2 = Inl f" by blast
    from h(2,3) have ne: "l2 \<noteq> []" by (auto simp: calls_def iteration_steps_def)
    have "p # ps = (p # pre) @ q # post \<and> k \<in> {1, 2, 3, 4} \<and>
        calls l = concat (map (iteration_steps out) (p # pre)) @ take k (iteration_steps out q) \<and>
        ends e l = Inl f"
      using h l c1 ne by (simp add: calls_def ends_append)
    then show ?thesis by blast
  qed
qed

lemma for_loop_outcome: "snd (for_loop e out ps w) \<noteq> SysExit n"
proof (induction ps arbitrary: w)
  case Nil
  then show ?case by simp
next
  case (Cons p ps)
  show ?case
  proof (cases "loop_body e out p w")
    case (Pair l1 r1)
    show ?thesis
    proof (cases r1)
      case (Inl f)
      with Pair show ?thesis by simp
    next
      case (Inr w')
      with Pair Cons [of w'] show ?thesis by (cases "for_loop e out ps w'") simp
    qed
  qed
qed

lemma for_loop_prefix:
  "prefix (calls (fst (for_loop e out ps w))) (concat (map (iteration_steps out) ps))"
proof (cases "for_loop e out ps w")
  case (Pair l r)
  show ?thesis
  proof (cases r)
    case Finished
    with Pair for_loop_Finished [of e out ps w l] show ?thesis by simp
  next
    case (SysExit n)
    with Pair for_loop_outcome [of e out ps w n] show ?thesis by simp
  next
    case (Unhandled f)
    with Pair for_loop_Unhandled [of e out ps w l f] obtain pre p post k where
      h: "ps = pre @ p # post"
         "calls l = concat (map (iteration_steps out) pre) @ take k (iteration_steps out p)"
      by blast
    have "prefix (take k (iteration_steps out p)) (iteration_steps out p @ concat (map (iteration_steps out) post))"
      by (metis take_is_prefix prefix_prefix)
    then show ?thesis using Pair h by simp
  qed
qed


lemma imported_mem: "p \<in> set (imported cs) \<longleftrightarrow> UsdImport p \<in> set cs"
  by (induction cs rule: imported.induct) auto

lemma printed_mem: "s \<in> set (printed cs) \<longleftrightarrow> Print s \<in> set cs"
  by (induction cs rule: printed.induct) auto

lemma for_loop_call_mem:
  "c \<in> set (calls (fst (for_loop e out ps w))) \<Longrightarrow> \<exists>p \<in> set ps. c \<in> set (iteration_steps out p)"
  using set_mono_prefix [OF for_loop_prefix [of e out ps w]] by auto

lemma convert_empty:
  assumes "makedirs e (output_dir af) True w0 = Inr w1" "usdz_files e af w1 = []"
  shows "fst (convert e af w0) =
           [(Makedirs (output_dir af) True, w0),
            (Print ''No .usdz files found in downloads/'', w1)]"
    and "snd (convert e af w0) =
           (case print_line e ''No .usdz files found in downloads/'' w1 of
              Some f \<Rightarrow> Unhandled f | None \<Rightarrow> SysExit 1)"
  using assms by (simp_all add: convert_def Let_def split: option.splits)

lemma convert_call_mem:
  "c \<in> set (calls (fst (convert e af w0))) \<Longrightarrow>
     c = Makedirs (output_dir af) True \<or> c = Print ''No .usdz files found in downloads/'' \<or>
     (\<exists>w1 p. makedirs e (output_dir af) True w0 = Inr w1 \<and> p \<in> set (usdz_files e af w1) \<and>
        c \<in> set (iteration_steps (output_dir af) p))"
proof -
  assume c: "c \<in> set (calls (fst (convert e af w0)))"
  show ?thesis
  proof (cases "makedirs e (output_dir af) True w0")
    case (Inl f)
    with c show ?thesis by (simp add: convert_def calls_def)
  next
    case (Inr w1)
    show ?thesis
    proof (cases "usdz_files e af w1 = []")
      case True
      with c convert_empty(1) [OF Inr True] show ?thesis by (auto simp: calls_def)
    next
      case False
      obtain l r where f: "for_loop e (output_dir af) (usdz_files e af w1) w1 = (l, r)"
        by (cases "for_loop e (output_dir af) (usdz_files e af w1) w1")
      with c Inr False have "c = Makedirs (output_dir af) True \<or> c \<in> set (calls l)"
        by (auto simp: convert_def calls_def)
      with for_loop_call_mem [of c e "output_dir af" "usdz_files e af w1" w1] f Inr
      show ?thesis by auto
    qed
  qed
qed


lemma reset_first_append:
  assumes "reset_first e l" "reset_first e l'"
  shows "reset_first e (l @ l')"
  unfolding reset_first_def
proof (intro allI impI)
  fix i p
  assume h: "i < length (l @ l') \<and> fst ((l @ l') ! i) = UsdImport p"
  show "0 < i \<and> fst ((l @ l') ! (i - 1)) = ReadFactorySettings True \<and>
        read_factory_settings e True (snd ((l @ l') ! (i - 1))) = Inr (snd ((l @ l') ! i))"
  proof (cases "i < length l")
    case True
    with h have "fst (l ! i) = UsdImport p" by (simp add: nth_append)
    with assms(1) True have
      "0 < i \<and> fst (l ! (i - 1)) = ReadFactorySettings True \<and>
        read_factory_settings e True (snd (l ! (i - 1))) = Inr (snd (l ! i))"
      unfolding reset_first_def by blast
    moreover have "i - 1 < length l" using True by simp
    ultimately show ?thesis using True by (simp add: nth_append)
  next
    case False
    define j where "j = i - length l"
    from False h have j: "j < length l'" "fst (l' ! j) = UsdImport p"
      by (auto simp: nth_append j_def)
    with assms(2) have q:
      "0 < j \<and> fst (l' ! (j - 1)) = ReadFactorySettings True \<and>
        read_factory_settings e True (snd (l' ! (j - 1))) = Inr (snd (l' ! j))"
      unfolding reset_first_def by blast
    from q have "0 < j" by simp
    then have "\<not> i - 1 < length l" "i - 1 - length l = j - 1" unfolding j_def by arith+
    then show ?thesis using q False by (simp add: nth_append j_def)
  qed
qed

lemma reset_first_loop_body: "reset_first e (fst (loop_body e out p w))"
  unfolding reset_first_def loop_body_def Let_def
  by (auto split: sum.splits option.splits simp: nth_Cons' less_Suc_eq)

lemma reset_first_for_loop: "reset_first e (fst (for_loop e out ps w))"
proof (induction ps arbitrary: w)
  case Nil
  then show ?case by (simp add: reset_first_def)
next
  case (Cons p ps)
  obtain l1 r1 where b: "loop_body e out p w = (l1, r1)" by (cases "loop_body e out p w")
  have q1: "reset_first e l1" using reset_first_loop_body [of e out p w] b by simp
  show ?case
  proof (cases r1)
    case (Inl f)
    with b q1 show ?thesis by simp
  next
    case (Inr w')
    obtain l2 r2 where f: "for_loop e out ps w' = (l2, r2)" by (cases "for_loop e out ps w'")
    have "reset_first e l2" using Cons [of w'] f by simp
    with q1 have "reset_first e (l1 @ l2)" by (rule reset_first_append)
    with b Inr f show ?thesis by simp
  qed
qed

lemma reset_first_convert: "reset_first e (fst (convert e af w0))"
proof -
  have one: "reset_first e [(Makedirs p ok, w)]" for p ok w
    by (auto simp: reset_first_def nth_Cons')
  have two: "reset_first e [(Makedirs p ok, w), (Print s, w')]" for p ok w s w'
    by (auto simp: reset_first_def nth_Cons' less_Suc_eq)
  show ?thesis
  proof (cases "makedirs e (output_dir af) True w0")
    case (Inl f)
    then show ?thesis using one by (simp add: convert_def)
  next
    case (Inr w1)
    show ?thesis
    proof (cases "usdz_files e af w1 = []")
      case True
      with convert_empty(1) [OF Inr True] show ?thesis using two by simp
    next
      case False
      obtain l r where f: "for_loop e (output_dir af) (usdz_files e af w1) w1 = (l, r)"
        by (cases "for_loop e (output_dir af) (usdz_files e af w1) w1")
      have "reset_first e l"
        using reset_first_for_loop [of e "output_dir af" "usdz_files e af w1" w1] f by simp
      with one have "reset_first e ([(Makedirs (output_dir af) True, w0)] @ l)"
        by (rule reset_first_append)
      with Inr False f show ?thesis by (simp add: convert_def)
    qed
  qed
qed

lemma threaded_convert: "threaded e (fst (convert e af w0))"
proof (cases "makedirs e (output_dir af) True w0")
  case (Inl f)
  then show ?thesis by (simp add: convert_def)
next
  case (Inr w1)
  show ?thesis
  proof (cases "usdz_files e af w1 = []")
    case True
    with convert_empty(1) [OF Inr True] Inr show ?thesis by simp
  next
    case False
    obtain l r where f: "for_loop e (output_dir af) (usdz_files e af w1) w1 = (l, r)"
      by (cases "for_loop e (output_dir af) (usdz_files e af w1) w1")
    from for_loop_threaded [OF f] have t: "threaded e l" "l \<noteq> [] \<longrightarrow> snd (hd l) = w1" by simp_all
    have "threaded e ([(Makedirs (output_dir af) True, w0)] @ l)"
      by (rule threaded_append) (use t Inr in \<open>auto simp: ends_def\<close>)
    with Inr False f show ?thesis by (simp add: convert_def)
  qed
qed

lemma threaded_nth:
  "threaded e l \<Longrightarrow> Suc i < length l \<Longrightarrow>
     perform e (fst (l ! i)) (snd (l ! i)) = Inr (snd (l ! Suc i))"
proof (induction e l arbitrary: i rule: threaded.induct)
  case (1 e)
  then show ?case by simp
next
  case (2 e x)
  then show ?case by simp
next
  case (3 e x y l)
  then show ?case by (cases i) simp_all
qed

lemma fault_is_last:
  assumes "threaded e l" "(c, w) \<in> set l" "perform e c w = Inl f"
  shows "last l = (c, w) \<and> ends e l = Inl f"
proof -
  from assms(2) obtain i where i: "i < length l" "l ! i = (c, w)" by (auto simp: in_set_conv_nth)
  have "\<not> Suc i < length l"
  proof
    assume "Suc i < length l"
    from threaded_nth [OF assms(1) this] i assms(3) show False by simp
  qed
  with i have "i = length l - 1" "l \<noteq> []" by auto
  with i have "last l = (c, w)" by (simp add: last_conv_nth)
  then show ?thesis using assms(3) by (simp add: ends_def)
qed

lemma printed_append: "printed (xs @ ys) = printed xs @ printed ys"
  by (induction xs rule: printed.induct) simp_all

lemma exported_append: "exported (xs @ ys) = exported xs @ exported ys"
  by (induction xs rule: exported.induct) simp_all

lemma imported_append: "imported (xs @ ys) = imported xs @ imported ys"
  by (induction xs rule: imported.induct) simp_all

lemma printed_steps:
  "printed (concat (map (iteration_steps out) ps)) = map (\<lambda>p. ''DONE: '' @ glb_path_of out p) ps"
  by (induction ps) (simp_all add: printed_append, simp add: iteration_steps_def)

lemma exported_steps:
  "exported (concat (map (iteration_steps out) ps)) = map (\<lambda>p. export_args (glb_path_of out p)) ps"
  by (induction ps) (simp_all add: exported_append, simp add: iteration_steps_def)

lemma imported_steps: "imported (concat (map (iteration_steps out) ps)) = ps"
  by (induction ps) (simp_all add: imported_append, simp add: iteration_steps_def)

lemma partial_steps:
  assumes "k \<in> {1, 2, 3}"
  shows "printed (take k (iteration_steps out p)) = []"
    and "set (imported (take k (iteration_steps out p))) \<subseteq> {p}"
    and "set (exported (take k (iteration_steps out p))) \<subseteq> {export_args (glb_path_of out p)}"
  using assms by (auto simp: iteration_steps_def numeral_2_eq_2 numeral_3_eq_3)

lemma last_steps:
  "ps \<noteq> [] \<Longrightarrow> \<exists>s. last (concat (map (iteration_steps out) ps)) = Print s"
proof -
  assume "ps \<noteq> []"
  then obtain qs q where "ps = qs @ [q]" by (metis rev_exhaust)
  then show ?thesis by (simp add: iteration_steps_def)
qed

lemma convert_loop:
  assumes "makedirs e (output_dir af) True w0 = Inr w1" "usdz_files e af w1 \<noteq> []"
  shows "convert e af w0 =
           ((Makedirs (output_dir af) True, w0) # fst (for_loop e (output_dir af) (usdz_files e af w1) w1),
            snd (for_loop e (output_dir af) (usdz_files e af w1) w1))"
  using assms by (simp add: convert_def split: prod.splits)



lemma usdz_files_mem:
  "r \<in> set (usdz_files e af w) \<Longrightarrow>
     \<exists>d n. r = join d n \<and> d \<in> set (search_dirs e af w) \<and> n \<in> set (listdir e d w) \<and>
           \<not> ishidden n \<and> suffix ''.usdz'' n"
  unfolding usdz_files_eq by auto


lemma convert_import_mem:
  "UsdImport p \<in> set (calls (fst (convert e af w0))) \<Longrightarrow>
     \<exists>w1. makedirs e (output_dir af) True w0 = Inr w1 \<and> p \<in> set (usdz_files e af w1)"
  using convert_call_mem [of "UsdImport p" e af w0] by (auto simp: iteration_steps_def)




lemma glb_path_shape:
  "glb_path_of out p = join out (fst (splitext (basename p)) @ ''.glb'')"
  by (simp add: glb_path_of_def)

lemma glb_name_no_sep: "CHR ''/'' \<notin> set (fst (splitext (basename p)) @ ''.glb'')"
  using stem_no_sep [of p] by simp



lemma glb_path_basename:
  "basename (glb_path_of out p) = fst (splitext (basename p)) @ ''.glb''"
  unfolding glb_path_shape by (rule basename_join [OF glb_name_no_sep])











section \<open>Runs of a script whose directory has no magic in its path\<close>

lemma stem_usdz:
  assumes "CHR ''/'' \<notin> set s" "s \<noteq> []" "hd s \<noteq> CHR ''.''"
  shows "splitext (s @ ''.usdz'') = (s, ''.usdz'')"
proof -
  have b: "basename (s @ ''.usdz'') = s @ ''.usdz''" using assms(1) by (intro basename_id) simp
  have e: "rev (takeWhile (\<lambda>c. c \<noteq> CHR ''.'') (rev (s @ ''.usdz''))) = ''usdz''" by simp
  have "hd s \<in> set s" using assms(2) by simp
  then have n: "\<not> list_all (\<lambda>c. c = CHR ''.'') s" using assms(3) by (auto simp: list_all_iff)
  show ?thesis unfolding splitext_def b Let_def e using n by simp
qed

lemma visible_usdz_stem:
  assumes "CHR ''/'' \<notin> set n" "\<not> ishidden n" "suffix ''.usdz'' n"
  shows "\<exists>s. n = s @ ''.usdz'' \<and> fst (splitext n) = s"
proof -
  from assms(3) obtain s where s: "n = s @ ''.usdz''" by (auto simp: suffix_def)
  with assms(2) have ne: "s \<noteq> []" by (auto simp: ishidden_def)
  from assms(2) s ne have "hd s \<noteq> CHR ''.''" by (cases s) (auto simp: ishidden_def)
  moreover from assms(1) s have "CHR ''/'' \<notin> set s" by simp
  ultimately show ?thesis using stem_usdz [of s] ne s by simp
qed

lemma glb_paths_distinct:
  assumes "\<not> has_magic (script_dir af)"
      and "\<forall>n \<in> set (listdir e (downloads_dir af) w). CHR ''/'' \<notin> set n"
      and "distinct (listdir e (downloads_dir af) w)"
  shows "distinct (map (glb_path_of (output_dir af)) (usdz_files e af w))"
proof -
  let ?dl = "downloads_dir af"
  let ?ns = "filter (\<lambda>n. \<not> ishidden n \<and> suffix ''.usdz'' n) (listdir e ?dl w)"
  let ?f = "\<lambda>n. glb_path_of (output_dir af) (join ?dl n)"
  have d: "distinct ?ns" using assms(3) by simp
  have "inj_on ?f (set ?ns)"
  proof (rule inj_onI)
    fix n m
    assume n: "n \<in> set ?ns" and m: "m \<in> set ?ns" and eq: "?f n = ?f m"
    from n assms(2) have n': "CHR ''/'' \<notin> set n" "\<not> ishidden n" "suffix ''.usdz'' n" by auto
    from m assms(2) have m': "CHR ''/'' \<notin> set m" "\<not> ishidden m" "suffix ''.usdz'' m" by auto
    from visible_usdz_stem [OF n'] obtain s where s: "n = s @ ''.usdz''" "fst (splitext n) = s" by blast
    from visible_usdz_stem [OF m'] obtain t where t: "m = t @ ''.usdz''" "fst (splitext m) = t" by blast
    from eq have "basename (?f n) = basename (?f m)" by simp
    then have "fst (splitext (basename (join ?dl n))) = fst (splitext (basename (join ?dl m)))"
      by (simp add: glb_path_basename)
    then have "s = t" using s(2) t(2) by (simp add: basename_join n'(1) m'(1))
    with s(1) t(1) show "n = m" by simp
  qed
  with d have "distinct (map ?f ?ns)" by (simp add: distinct_map)
  then show ?thesis using assms(1) by (simp add: usdz_files_literal comp_def)
qed

lemma convert_finished_calls:
  assumes "makedirs e (output_dir af) True w0 = Inr w1" "usdz_files e af w1 \<noteq> []"
      and "snd (convert e af w0) = Finished"
  shows "calls (fst (convert e af w0)) = Makedirs (output_dir af) True #
      concat (map (iteration_steps (output_dir af)) (usdz_files e af w1))"
proof -
  obtain l' r where f: "for_loop e (output_dir af) (usdz_files e af w1) w1 = (l', r)"
    by (cases "for_loop e (output_dir af) (usdz_files e af w1) w1")
  from convert_loop [OF assms(1,2)] f assms(3) have "r = Finished"
    "fst (convert e af w0) = (Makedirs (output_dir af) True, w0) # l'" by simp_all
  with f for_loop_Finished [of e "output_dir af" "usdz_files e af w1" w1 l']
  show ?thesis by (simp add: calls_def)
qed

lemma convert_no_fault_finished:
  assumes "makedirs e (output_dir af) True w0 = Inr w1" "usdz_files e af w1 \<noteq> []"
      and "\<forall>c w f. (c, w) \<in> set (fst (convert e af w0)) \<longrightarrow> perform e c w \<noteq> Inl f"
  shows "snd (convert e af w0) = Finished"
proof -
  obtain l' r where f: "for_loop e (output_dir af) (usdz_files e af w1) w1 = (l', r)"
    by (cases "for_loop e (output_dir af) (usdz_files e af w1) w1")
  from convert_loop [OF assms(1,2)] f
  have c: "convert e af w0 = ((Makedirs (output_dir af) True, w0) # l', r)" by simp
  show ?thesis
  proof (cases r)
    case Finished
    with c show ?thesis by simp
  next
    case (SysExit n)
    with f for_loop_outcome [of e "output_dir af" "usdz_files e af w1" w1 n] show ?thesis by simp
  next
    case (Unhandled x)
    with f for_loop_Unhandled [of e "output_dir af" "usdz_files e af w1" w1 l' x]
    obtain pre p k where
      h: "k \<in> {1, 2, 3, 4}"
         "calls l' = concat (map (iteration_steps (output_dir af)) pre)
            @ take k (iteration_steps (output_dir af) p)"
         "ends e l' = Inl x" by blast
    from h(1,2) have ne: "l' \<noteq> []" by (auto simp: calls_def iteration_steps_def)
    then have "last l' \<in> set (fst (convert e af w0))" using c by simp
    with assms(3) have "perform e (fst (last l')) (snd (last l')) \<noteq> Inl x"
      by (metis prod.collapse)
    with h(3) show ?thesis by (simp add: ends_def)
  qed
qed

lemma literal_dir_run:
  assumes "\<not> has_magic (script_dir af)"
      and "\<forall>n \<in> set (listdir e (downloads_dir af) w1). CHR ''/'' \<notin> set n"
      and "distinct (listdir e (downloads_dir af) w1)"
      and "makedirs e (output_dir af) True w0 = Inr w1"
      and "usdz_files e af w1 \<noteq> []"
      and "\<forall>c w f. (c, w) \<in> set (fst (convert e af w0)) \<longrightarrow> perform e c w \<noteq> Inl f"
  shows "snd (convert e af w0) = Finished"
    and "usdz_files e af w1 = map (join (downloads_dir af))
           (filter (\<lambda>n. \<not> ishidden n \<and> suffix ''.usdz'' n) (listdir e (downloads_dir af) w1))"
    and "exported (calls (fst (convert e af w0)))
           = map (\<lambda>p. export_args (glb_path_of (output_dir af) p)) (usdz_files e af w1)"
    and "distinct (map filepath (exported (calls (fst (convert e af w0)))))"
    and "printed (calls (fst (convert e af w0)))
           = map (\<lambda>p. ''DONE: '' @ glb_path_of (output_dir af) p) (usdz_files e af w1)"
    and "imported (calls (fst (convert e af w0))) = usdz_files e af w1"
proof -
  show fin: "snd (convert e af w0) = Finished"
    using assms(4,5,6) by (rule convert_no_fault_finished)
  have c: "calls (fst (convert e af w0)) = Makedirs (output_dir af) True #
      concat (map (iteration_steps (output_dir af)) (usdz_files e af w1))"
    using assms(4,5) fin by (rule convert_finished_calls)
  show "usdz_files e af w1 = map (join (downloads_dir af))
           (filter (\<lambda>n. \<not> ishidden n \<and> suffix ''.usdz'' n) (listdir e (downloads_dir af) w1))"
    using assms(1) by (rule usdz_files_literal)
  show ex: "exported (calls (fst (convert e af w0)))
           = map (\<lambda>p. export_args (glb_path_of (output_dir af) p)) (usdz_files e af w1)"
    unfolding c by (simp add: exported_steps)
  have "map filepath (map (\<lambda>p. export_args (glb_path_of (output_dir af) p)) (usdz_files e af w1))
      = map (glb_path_of (output_dir af)) (usdz_files e af w1)"
    by (simp add: export_args_def comp_def)
  then show "distinct (map filepath (exported (calls (fst (convert e af w0)))))"
    unfolding ex using glb_paths_distinct [OF assms(1,2,3)] by (simp only:)
  show "printed (calls (fst (convert e af w0)))
           = map (\<lambda>p. ''DONE: '' @ glb_path_of (output_dir af) p) (usdz_files e af w1)"
    unfolding c by (simp add: printed_steps)
  show "imported (calls (fst (convert e af w0))) = usdz_files e af w1"
    unfolding c by (simp add: imported_steps)
qed

lemma usdz_files_visible:
  assumes "\<forall>w d. \<forall>m \<in> set (listdir e d w). CHR ''/'' \<notin> set m"
      and "r \<in> set (usdz_files e af w)"
  shows "\<not> ishidden (basename r) \<and> suffix ''.usdz'' (basename r)"
proof -
  from usdz_files_mem [OF assms(2)] obtain d m where
    h: "r = join d m" "m \<in> set (listdir e d w)" "\<not> ishidden m" "suffix ''.usdz'' m" by blast
  from assms(1) h(2) have "CHR ''/'' \<notin> set m" by blast
  then have "basename r = m" unfolding h(1) by (rule basename_join)
  with h(3,4) show ?thesis by simp
qed


lemma convert_run_shape:
  assumes "makedirs e (output_dir af) True w0 = Inr w1" "usdz_files e af w1 \<noteq> []"
  shows "(snd (convert e af w0) = Finished \<and>
          calls (fst (convert e af w0)) =
            Makedirs (output_dir af) True #
              concat (map (iteration_steps (output_dir af)) (usdz_files e af w1))) \<or>
         (\<exists>f pre p post k.
            snd (convert e af w0) = Unhandled f \<and>
            usdz_files e af w1 = pre @ p # post \<and> k \<in> {1, 2, 3, 4} \<and>
            calls (fst (convert e af w0)) =
              Makedirs (output_dir af) True # concat (map (iteration_steps (output_dir af)) pre)
                @ take k (iteration_steps (output_dir af) p) \<and>
            ends e (fst (convert e af w0)) = Inl f)"
proof -
  let ?out = "output_dir af"
  let ?ps = "usdz_files e af w1"
  obtain l' r where f: "for_loop e ?out ?ps w1 = (l', r)" by (cases "for_loop e ?out ?ps w1")
  from convert_loop [OF assms] f
  have c: "convert e af w0 = ((Makedirs ?out True, w0) # l', r)" by simp
  show ?thesis
  proof (cases r)
    case Finished
    with f c for_loop_Finished [of e ?out ?ps w1 l'] show ?thesis by (simp add: calls_def)
  next
    case (SysExit n)
    with f for_loop_outcome [of e ?out ?ps w1 n] show ?thesis by simp
  next
    case (Unhandled x)
    with f for_loop_Unhandled [of e ?out ?ps w1 l' x] obtain pre p post k where
      h: "?ps = pre @ p # post" "k \<in> {1, 2, 3, 4}"
         "calls l' = concat (map (iteration_steps ?out) pre) @ take k (iteration_steps ?out p)"
         "ends e l' = Inl x" by blast
    from h(2,3) have ne: "l' \<noteq> []" by (auto simp: calls_def iteration_steps_def)
    have "snd (convert e af w0) = Unhandled x \<and> ?ps = pre @ p # post \<and> k \<in> {1, 2, 3, 4} \<and>
        calls (fst (convert e af w0)) = Makedirs ?out True # concat (map (iteration_steps ?out) pre)
                @ take k (iteration_steps ?out p) \<and>
        ends e (fst (convert e af w0)) = Inl x"
      using c Unhandled h ne by (simp add: calls_def ends_def)
    then show ?thesis by blast
  qed
qed

lemma convert_no_fault_run:
  assumes "makedirs e (output_dir af) True w0 = Inr w1" "usdz_files e af w1 \<noteq> []"
      and "\<forall>c w f. (c, w) \<in> set (fst (convert e af w0)) \<longrightarrow> perform e c w \<noteq> Inl f"
  shows "snd (convert e af w0) = Finished \<and>
         calls (fst (convert e af w0)) =
           Makedirs (output_dir af) True #
             concat (map (iteration_steps (output_dir af)) (usdz_files e af w1))"
  using convert_no_fault_finished [OF assms] convert_finished_calls [OF assms(1,2)] by simp

lemma import_world:
  assumes "reset_first e l" "\<forall>w w'. read_factory_settings e True w = Inr w' \<longrightarrow> empty_scene w'"
      and "i < length l" "fst (l ! i) = UsdImport p"
  shows "empty_scene (snd (l ! i))"
  using assms unfolding reset_first_def by metis


section \<open>The claims\<close>

subsection \<open>Evaluation of the example environments\<close>

lemma srv_files:
  "usdz_files (srv_env bad) ''/srv/convert.py'' w =
     [''/srv/downloads/chair.usdz'', ''/srv/downloads/a.b.usdz'']"
  by (simp add: usdz_files_def glob_def downloads_dir_def script_dir_def dirname_def join_def rstrip_sep_def has_magic_def basename_def glob1_def srv_env_def srv_listdir_def ishidden_def fnmatch_filter_def)


lemma srv_output: "output_dir ''/srv/convert.py'' = ''/srv/output''"
  by (simp add: output_dir_def script_dir_def dirname_def join_def rstrip_sep_def)


lemma srv_downloads: "downloads_dir ''/srv/convert.py'' = ''/srv/downloads''"
  by (simp add: downloads_dir_def script_dir_def dirname_def join_def rstrip_sep_def)




subsection \<open>C4: the export configuration\<close>




subsection \<open>C3: a fault ends the batch\<close>

text \<open>
  Claim C3. Whenever a reset, an import or an export of a run raises a fault (a call of the
  log other than the initial \<^verbatim>\<open>makedirs\<close> and the prints), that fault is the way the
  run ends: the faulting call is the last call of the log, made for some file \<open>p\<close> of the
  discovery order \<open>pre @ p # post\<close>. Before it the log holds the complete iterations of
  \<open>pre\<close> and the calls of \<open>p\<close> up to the faulting one; nothing is called after it, so
  no file of \<open>post\<close> is imported or exported and the faulting call is not retried. The
  lines printed are the completion lines of \<open>pre\<close> and nothing else: no error is reported
  per file.
\<close>

theorem fault_aborts_batch:
  assumes "(c, w) \<in> set (fst (convert e af w0))"
      and "perform e c w = Inl f"
      and "c \<noteq> Makedirs (output_dir af) True"
      and "\<forall>s. c \<noteq> Print s"
  shows "snd (convert e af w0) = Unhandled f \<and>
         last (fst (convert e af w0)) = (c, w) \<and>
         (\<exists>w1 pre p post k.
            makedirs e (output_dir af) True w0 = Inr w1 \<and>
            usdz_files e af w1 = pre @ p # post \<and> k \<in> {1, 2, 3} \<and>
            calls (fst (convert e af w0)) =
              Makedirs (output_dir af) True # concat (map (iteration_steps (output_dir af)) pre)
                @ take k (iteration_steps (output_dir af) p) \<and>
            printed (calls (fst (convert e af w0))) =
              map (\<lambda>q. ''DONE: '' @ glb_path_of (output_dir af) q) pre \<and>
            set (imported (calls (fst (convert e af w0)))) \<subseteq> set (pre @ [p]) \<and>
            set (exported (calls (fst (convert e af w0))))
              \<subseteq> set (map (\<lambda>q. export_args (glb_path_of (output_dir af) q)) (pre @ [p])))"
proof -
  let ?out = "output_dir af"
  let ?l = "fst (convert e af w0)"
  from fault_is_last [OF threaded_convert assms(1,2)]
  have last: "last ?l = (c, w)" and ends: "ends e ?l = Inl f" by simp_all
  show ?thesis
  proof (cases "makedirs e ?out True w0")
    case (Inl f0)
    then have "?l = [(Makedirs ?out True, w0)]" by (simp add: convert_def)
    with assms(1,3) show ?thesis by simp
  next
    case (Inr w1)
    show ?thesis
    proof (cases "usdz_files e af w1 = []")
      case True
      from convert_empty(1) [OF Inr True] assms(1,3,4) show ?thesis by auto
    next
      case False
      let ?ps = "usdz_files e af w1"
      obtain l' r where f: "for_loop e ?out ?ps w1 = (l', r)" by (cases "for_loop e ?out ?ps w1")
      from convert_loop [OF Inr False] f
      have c: "convert e af w0 = ((Makedirs ?out True, w0) # l', r)" by simp
      have notprint: "last (calls l') \<noteq> Print s" if "l' \<noteq> []" for s
      proof -
        from that c last have "last l' = (c, w)" by simp
        with that have "last (calls l') = c" by (simp add: calls_def last_map)
        with assms(4) show ?thesis by simp
      qed
      show ?thesis
      proof (cases r)
        case Finished
        with f have cl: "calls l' = concat (map (iteration_steps ?out) ?ps)"
          by (simp add: for_loop_Finished)
        from last_steps [OF False, of ?out] cl obtain s where s: "last (calls l') = Print s" by auto
        from cl False have ne: "l' \<noteq> []" by (cases ?ps) (auto simp: calls_def iteration_steps_def)
        from notprint [OF ne, of s] s show ?thesis by simp
      next
        case (SysExit n)
        with f for_loop_outcome [of e ?out ?ps w1 n] show ?thesis by simp
      next
        case (Unhandled f')
        with f for_loop_Unhandled [of e ?out ?ps w1 l' f'] obtain pre p post k where
          h: "?ps = pre @ p # post" "k \<in> {1, 2, 3, 4}"
             "calls l' = concat (map (iteration_steps ?out) pre) @ take k (iteration_steps ?out p)"
             "ends e l' = Inl f'" by blast
        from h(2,3) have ne: "l' \<noteq> []" by (auto simp: calls_def iteration_steps_def)
        have "k \<noteq> 4"
        proof
          assume "k = 4"
          with h(3) have "last (calls l') = Print (''DONE: '' @ glb_path_of ?out p)"
            by (simp add: iteration_steps_def)
          with notprint [OF ne, of "''DONE: '' @ glb_path_of ?out p"] show False by simp
        qed
        with h(2) have k: "k \<in> {1, 2, 3}" by auto
        from ne ends c h(4) have ff: "f' = f" by (simp add: ends_def)
        have cl: "calls ?l = Makedirs ?out True # concat (map (iteration_steps ?out) pre)
                @ take k (iteration_steps ?out p)"
          using c h(3) by (simp add: calls_def)
        have pr: "printed (calls ?l) = map (\<lambda>q. ''DONE: '' @ glb_path_of ?out q) pre"
          unfolding cl using partial_steps(1) [OF k]
          by (simp add: printed_append printed_steps)
        have im: "set (imported (calls ?l)) \<subseteq> set (pre @ [p])"
          unfolding cl using partial_steps(2) [OF k, of ?out p]
          by (auto simp: imported_append imported_steps)
        have ex: "set (exported (calls ?l))
              \<subseteq> set (map (\<lambda>q. export_args (glb_path_of ?out q)) (pre @ [p]))"
          unfolding cl using partial_steps(3) [OF k, of ?out p]
          by (auto simp: exported_append exported_steps)
        from c Unhandled ff have "snd (convert e af w0) = Unhandled f" by simp
        with last Inr h(1) k cl pr im ex show ?thesis by blast
      qed
    qed
  qed
qed


text \<open>A run whose first import fails: the second file is never touched.\<close>

theorem fault_aborts_batch_witness:
  "snd (convert (srv_env [''/srv/downloads/chair.usdz'']) ''/srv/convert.py'' w_init)
     = Unhandled (Exception ''import failed'') \<and>
   last (fst (convert (srv_env [''/srv/downloads/chair.usdz'']) ''/srv/convert.py'' w_init))
     = (UsdImport ''/srv/downloads/chair.usdz'', w_init\<lparr>scene := []\<rparr>) \<and>
   printed (calls (fst (convert (srv_env [''/srv/downloads/chair.usdz'']) ''/srv/convert.py'' w_init))) = [] \<and>
   imported (calls (fst (convert (srv_env [''/srv/downloads/chair.usdz'']) ''/srv/convert.py'' w_init)))
     = [''/srv/downloads/chair.usdz'']"
proof -
  let ?e = "srv_env [''/srv/downloads/chair.usdz'']"
  have l: "fst (convert ?e ''/srv/convert.py'' w_init) =
      [(Makedirs ''/srv/output'' True, w_init), (ReadFactorySettings True, w_init),
       (UsdImport ''/srv/downloads/chair.usdz'', w_init\<lparr>scene := []\<rparr>)]"
    by code_simp
  have m: "(UsdImport ''/srv/downloads/chair.usdz'', w_init\<lparr>scene := []\<rparr>)
      \<in> set (fst (convert ?e ''/srv/convert.py'' w_init))"
    unfolding l by simp
  have p: "perform ?e (UsdImport ''/srv/downloads/chair.usdz'') (w_init\<lparr>scene := []\<rparr>)
      = Inl (Exception ''import failed'')"
    by (simp add: srv_env_def)
  have n: "UsdImport ''/srv/downloads/chair.usdz'' \<noteq> Makedirs (output_dir ''/srv/convert.py'') True"
    by simp
  have q: "\<forall>s. UsdImport ''/srv/downloads/chair.usdz'' \<noteq> Print s" by simp
  from fault_aborts_batch [OF m p n q] show ?thesis unfolding l by (simp add: calls_def)
qed

subsection \<open>C7: the step sequence of an iteration\<close>

text \<open>
  Claim C7 says that for every discovered file the iteration executes reset, import,
  export, print. It does not in a run that a fault ends: here the import of the first file
  fails, the first iteration stops after two steps, and the second discovered file has no
  iteration at all.
\<close>

theorem skipped_iteration_counterexample:
  "usdz_files (srv_env [''/srv/downloads/chair.usdz'']) ''/srv/convert.py'' w_init =
     [''/srv/downloads/chair.usdz'', ''/srv/downloads/a.b.usdz''] \<and>
   calls (fst (convert (srv_env [''/srv/downloads/chair.usdz'']) ''/srv/convert.py'' w_init)) =
     [Makedirs ''/srv/output'' True, ReadFactorySettings True,
      UsdImport ''/srv/downloads/chair.usdz'']"
proof -
  have "calls (fst (convert (srv_env [''/srv/downloads/chair.usdz'']) ''/srv/convert.py'' w_init)) =
     [Makedirs ''/srv/output'' True, ReadFactorySettings True,
      UsdImport ''/srv/downloads/chair.usdz'']" by code_simp
  then show ?thesis by (simp add: srv_files)
qed

text \<open>
  Claim C7, amended. Once the output directory is made and the glob has found files, a run
  either finishes, and its calls are then \<^verbatim>\<open>makedirs\<close> followed, for each discovered
  file in list order, by the four steps reset, import, export, print; or it ends with the
  fault of its last call, and its calls are then \<^verbatim>\<open>makedirs\<close>, the four steps of each
  file before the faulting one, and the steps of that file up to the faulting call. It
  finishes whenever no call of its log faults. Each call is made in the world the call
  before it returned, so the iterations run one after the other. Every import directly
  follows a reset with \<^verbatim>\<open>use_empty=True\<close> and is made in the very world that reset
  returned: in particular, where every such reset of the host returns a world with an empty
  scene (\<open>empty_scene\<close>), the scene is empty at every import.
\<close>

theorem iteration_sequence:
  assumes "makedirs e (output_dir af) True w0 = Inr w1"
      and "usdz_files e af w1 \<noteq> []"
  shows "((snd (convert e af w0) = Finished \<and>
           calls (fst (convert e af w0)) =
             Makedirs (output_dir af) True #
               concat (map (iteration_steps (output_dir af)) (usdz_files e af w1))) \<or>
          (\<exists>f pre p post k.
             snd (convert e af w0) = Unhandled f \<and>
             usdz_files e af w1 = pre @ p # post \<and> k \<in> {1, 2, 3, 4} \<and>
             calls (fst (convert e af w0)) =
               Makedirs (output_dir af) True # concat (map (iteration_steps (output_dir af)) pre)
                 @ take k (iteration_steps (output_dir af) p) \<and>
             ends e (fst (convert e af w0)) = Inl f)) \<and>
         ((\<forall>c w f. (c, w) \<in> set (fst (convert e af w0)) \<longrightarrow> perform e c w \<noteq> Inl f) \<longrightarrow>
            snd (convert e af w0) = Finished \<and>
            calls (fst (convert e af w0)) =
              Makedirs (output_dir af) True #
                concat (map (iteration_steps (output_dir af)) (usdz_files e af w1))) \<and>
         threaded e (fst (convert e af w0)) \<and>
         (\<forall>i p. i < length (fst (convert e af w0)) \<and> fst (fst (convert e af w0) ! i) = UsdImport p \<longrightarrow>
            0 < i \<and> fst (fst (convert e af w0) ! (i - 1)) = ReadFactorySettings True \<and>
            read_factory_settings e True (snd (fst (convert e af w0) ! (i - 1)))
              = Inr (snd (fst (convert e af w0) ! i))) \<and>
         ((\<forall>w w'. read_factory_settings e True w = Inr w' \<longrightarrow> empty_scene w') \<longrightarrow>
            (\<forall>i p. i < length (fst (convert e af w0)) \<and> fst (fst (convert e af w0) ! i) = UsdImport p \<longrightarrow>
               empty_scene (snd (fst (convert e af w0) ! i))))"
proof -
  note 1 = convert_run_shape [OF assms]
  have 2: "(\<forall>c w f. (c, w) \<in> set (fst (convert e af w0)) \<longrightarrow> perform e c w \<noteq> Inl f) \<longrightarrow>
            snd (convert e af w0) = Finished \<and>
            calls (fst (convert e af w0)) =
              Makedirs (output_dir af) True #
                concat (map (iteration_steps (output_dir af)) (usdz_files e af w1))"
    using convert_no_fault_run [OF assms] by blast
  have 3: "threaded e (fst (convert e af w0))" by (rule threaded_convert)
  have rf: "reset_first e (fst (convert e af w0))" by (rule reset_first_convert)
  then have 4: "\<forall>i p. i < length (fst (convert e af w0)) \<and> fst (fst (convert e af w0) ! i) = UsdImport p \<longrightarrow>
            0 < i \<and> fst (fst (convert e af w0) ! (i - 1)) = ReadFactorySettings True \<and>
            read_factory_settings e True (snd (fst (convert e af w0) ! (i - 1)))
              = Inr (snd (fst (convert e af w0) ! i))"
    unfolding reset_first_def .
  have 5: "(\<forall>w w'. read_factory_settings e True w = Inr w' \<longrightarrow> empty_scene w') \<longrightarrow>
            (\<forall>i p. i < length (fst (convert e af w0)) \<and> fst (fst (convert e af w0) ! i) = UsdImport p \<longrightarrow>
               empty_scene (snd (fst (convert e af w0) ! i)))"
    using import_world [OF rf, of empty_scene] by blast
  from 1 2 3 4 5 show ?thesis by (intro conjI)
qed



text \<open>
  The run over \<^verbatim>\<open>/srv/downloads\<close>: its calls, and its second reset and import. The
  reset is made with the first file still in the scene, the import in an empty scene.
\<close>

theorem iteration_sequence_witness:
  "snd (convert (srv_env []) ''/srv/convert.py'' w_init) = Finished \<and>
   calls (fst (convert (srv_env []) ''/srv/convert.py'' w_init)) =
     Makedirs ''/srv/output'' True #
       iteration_steps ''/srv/output'' ''/srv/downloads/chair.usdz'' @
       iteration_steps ''/srv/output'' ''/srv/downloads/a.b.usdz'' \<and>
   threaded (srv_env []) (fst (convert (srv_env []) ''/srv/convert.py'' w_init)) \<and>
   fst (fst (convert (srv_env []) ''/srv/convert.py'' w_init) ! 6)
     = UsdImport ''/srv/downloads/a.b.usdz'' \<and>
   fst (fst (convert (srv_env []) ''/srv/convert.py'' w_init) ! 5) = ReadFactorySettings True \<and>
   scene (snd (fst (convert (srv_env []) ''/srv/convert.py'' w_init) ! 5))
     = [''/srv/downloads/chair.usdz''] \<and>
   scene (snd (fst (convert (srv_env []) ''/srv/convert.py'' w_init) ! 6)) = []"
proof -
  let ?l = "fst (convert (srv_env []) ''/srv/convert.py'' w_init)"
  have m: "makedirs (srv_env []) (output_dir ''/srv/convert.py'') True w_init = Inr w_init"
    by (simp add: srv_env_def)
  have n: "usdz_files (srv_env []) ''/srv/convert.py'' w_init \<noteq> []" by (simp add: srv_files)
  have nf: "perform (srv_env []) c w \<noteq> Inl f" for c w f
    by (cases c) (simp_all add: srv_env_def)
  have em: "\<forall>w w'. read_factory_settings (srv_env []) True w = Inr w' \<longrightarrow> scene w' = []"
    by (auto simp: srv_env_def)
  have len: "6 < length ?l" by code_simp
  have i6: "fst (?l ! 6) = UsdImport ''/srv/downloads/a.b.usdz''" by code_simp
  have s5: "scene (snd (?l ! 5)) = [''/srv/downloads/chair.usdz'']" by code_simp
  from iteration_sequence [OF m n, of "\<lambda>w. scene w = []"] nf em len i6
  have "snd (convert (srv_env []) ''/srv/convert.py'' w_init) = Finished"
    "calls ?l = Makedirs (output_dir ''/srv/convert.py'') True #
       concat (map (iteration_steps (output_dir ''/srv/convert.py''))
         (usdz_files (srv_env []) ''/srv/convert.py'' w_init))"
    "threaded (srv_env []) ?l"
    "fst (?l ! (6 - 1)) = ReadFactorySettings True"
    "scene (snd (?l ! 6)) = []"
    by blast+
  with i6 s5 show ?thesis by (simp add: srv_files srv_output)
qed


subsection \<open>C9: hidden files\<close>

text \<open>
  Claim C9. Where directory entries are file names (no slash in them), no path the glob of
  line 8 returns has a last component that begins with a dot, and neither has any path a
  run imports. So a file of the downloads directory whose name begins with a dot is never
  matched, whatever follows the dot, and never converted.
\<close>

theorem hidden_never_converted:
  assumes "\<forall>w d. \<forall>m \<in> set (listdir e d w). CHR ''/'' \<notin> set m"
  shows "(\<forall>w. \<forall>r \<in> set (usdz_files e af w). \<not> ishidden (basename r)) \<and>
         (\<forall>p \<in> set (imported (calls (fst (convert e af w0)))). \<not> ishidden (basename p)) \<and>
         (\<forall>n. ishidden n \<and> CHR ''/'' \<notin> set n \<longrightarrow>
            (\<forall>w. join (downloads_dir af) n \<notin> set (usdz_files e af w)) \<and>
            UsdImport (join (downloads_dir af) n) \<notin> set (calls (fst (convert e af w0))))"
proof -
  have 1: "\<forall>w. \<forall>r \<in> set (usdz_files e af w). \<not> ishidden (basename r)"
    using usdz_files_visible [OF assms] by blast
  have 2: "\<forall>p \<in> set (imported (calls (fst (convert e af w0)))). \<not> ishidden (basename p)"
  proof
    fix p
    assume "p \<in> set (imported (calls (fst (convert e af w0))))"
    then have "UsdImport p \<in> set (calls (fst (convert e af w0)))" by (simp add: imported_mem)
    from convert_import_mem [OF this] obtain w1 where "p \<in> set (usdz_files e af w1)" by blast
    with 1 show "\<not> ishidden (basename p)" by blast
  qed
  have 3: "(\<forall>w. join (downloads_dir af) n \<notin> set (usdz_files e af w)) \<and>
            UsdImport (join (downloads_dir af) n) \<notin> set (calls (fst (convert e af w0)))"
    if n: "ishidden n \<and> CHR ''/'' \<notin> set n" for n
  proof -
    from n have b: "basename (join (downloads_dir af) n) = n" by (simp add: basename_join)
    with n 1 have "\<forall>w. join (downloads_dir af) n \<notin> set (usdz_files e af w)" by metis
    moreover from b n 2 have "join (downloads_dir af) n \<notin> set (imported (calls (fst (convert e af w0))))"
      by metis
    ultimately show ?thesis by (simp add: imported_mem)
  qed
  from 1 2 3 show ?thesis by blast
qed


text \<open>\<^verbatim>\<open>.hidden.usdz\<close> is listed in \<^verbatim>\<open>/srv/downloads\<close> and ends in \<^verbatim>\<open>.usdz\<close>.\<close>

theorem hidden_never_converted_witness:
  "''.hidden.usdz'' \<in> set (listdir (srv_env []) ''/srv/downloads'' w_init) \<and>
   suffix ''.usdz'' ''.hidden.usdz'' \<and>
   ''/srv/downloads/.hidden.usdz'' \<notin> set (usdz_files (srv_env []) ''/srv/convert.py'' w_init) \<and>
   UsdImport ''/srv/downloads/.hidden.usdz''
     \<notin> set (calls (fst (convert (srv_env []) ''/srv/convert.py'' w_init)))"
proof -
  have wf: "\<forall>w d. \<forall>m \<in> set (listdir (srv_env []) d w). CHR ''/'' \<notin> set m"
    by (auto simp: srv_env_def srv_listdir_def split: if_splits)
  have h: "ishidden ''.hidden.usdz'' \<and> CHR ''/'' \<notin> set ''.hidden.usdz''"
    by (simp add: ishidden_def)
  have j: "join ''/srv/downloads'' ''.hidden.usdz'' = ''/srv/downloads/.hidden.usdz''"
    by (simp add: join_def)
  have l: "''.hidden.usdz'' \<in> set (listdir (srv_env []) ''/srv/downloads'' w_init)"
    by (simp add: srv_env_def srv_listdir_def)
  have x: "suffix ''.usdz'' ''.hidden.usdz''" by (simp add: suffix_def)
  from hidden_never_converted [OF wf, of "''/srv/convert.py''" w_init] h
  have "join (downloads_dir ''/srv/convert.py'') ''.hidden.usdz''
          \<notin> set (usdz_files (srv_env []) ''/srv/convert.py'' w_init) \<and>
        UsdImport (join (downloads_dir ''/srv/convert.py'') ''.hidden.usdz'')
          \<notin> set (calls (fst (convert (srv_env []) ''/srv/convert.py'' w_init)))"
    by blast
  with l x show ?thesis unfolding srv_downloads j by blast
qed

subsection \<open>C10: nothing is written outside the output directory\<close>




subsection \<open>C6: the output directory\<close>




subsection \<open>C2: the empty glob\<close>






subsection \<open>C5: which files are selected\<close>

text \<open>
  Claim C5 says that the input files are exactly the entries of the downloads directory
  beside the script whose names match \<^verbatim>\<open>*.usdz\<close>. Line 8 hands the path of that
  directory to \<^verbatim>\<open>glob.glob\<close> unescaped, so a \<^verbatim>\<open>*\<close>, \<^verbatim>\<open>?\<close> or \<^verbatim>\<open>[\<close> in it
  is read as a pattern. For the script \<^verbatim>\<open>/srv/[ab]/convert.py\<close> the glob does not look
  into \<^verbatim>\<open>/srv/[ab]/downloads\<close>, which holds \<^verbatim>\<open>table.usdz\<close>; it returns the files of
  the downloads directories of \<^verbatim>\<open>/srv/a\<close> and \<^verbatim>\<open>/srv/b\<close>. (Lemma
  \<open>usdz_files_literal\<close> has the claim for a script directory without magic in its path:
  the entries of the one directory that end in \<^verbatim>\<open>.usdz\<close>, letter case as written, and
  do not begin with a dot.)
\<close>

theorem bracket_dir_selection:
  "script_dir ''/srv/[ab]/convert.py'' = ''/srv/[ab]'' \<and>
   downloads_dir ''/srv/[ab]/convert.py'' = ''/srv/[ab]/downloads'' \<and>
   listdir bracket_env ''/srv/[ab]/downloads'' w_init = [''table.usdz''] \<and>
   usdz_files bracket_env ''/srv/[ab]/convert.py'' w_init =
     [''/srv/a/downloads/chair.usdz'', ''/srv/b/downloads/chair.usdz'']"
proof -
  have "script_dir ''/srv/[ab]/convert.py'' = ''/srv/[ab]''" by code_simp
  moreover have "downloads_dir ''/srv/[ab]/convert.py'' = ''/srv/[ab]/downloads''" by code_simp
  moreover have "listdir bracket_env ''/srv/[ab]/downloads'' w_init = [''table.usdz'']"
    by (simp add: bracket_env_def bracket_listdir_def)
  moreover have "usdz_files bracket_env ''/srv/[ab]/convert.py'' w_init =
     [''/srv/a/downloads/chair.usdz'', ''/srv/b/downloads/chair.usdz'']" by code_simp
  ultimately show ?thesis by blast
qed


subsection \<open>C8: the output paths of one run\<close>

text \<open>
  Claim C8 says that the output paths of the iterations of one run are pairwise distinct,
  all inputs coming from one directory. For the script \<^verbatim>\<open>/srv/[ab]/convert.py\<close> the
  two inputs come from two directories and share the base name \<^verbatim>\<open>chair.usdz\<close>: both
  iterations export to the same path. (Lemma \<open>glb_paths_distinct\<close> has the claim for a
  script directory without magic in its path, entries of a directory being distinct names.)
\<close>

theorem bracket_dir_collision:
  "imported (calls (fst (convert bracket_env ''/srv/[ab]/convert.py'' w_init))) =
     [''/srv/a/downloads/chair.usdz'', ''/srv/b/downloads/chair.usdz''] \<and>
   map filepath (exported (calls (fst (convert bracket_env ''/srv/[ab]/convert.py'' w_init)))) =
     [''/srv/[ab]/output/chair.glb'', ''/srv/[ab]/output/chair.glb'']"
proof -
  have "imported (calls (fst (convert bracket_env ''/srv/[ab]/convert.py'' w_init))) =
     [''/srv/a/downloads/chair.usdz'', ''/srv/b/downloads/chair.usdz'']" by code_simp
  moreover have
    "map filepath (exported (calls (fst (convert bracket_env ''/srv/[ab]/convert.py'' w_init)))) =
     [''/srv/[ab]/output/chair.glb'', ''/srv/[ab]/output/chair.glb'']" by code_simp
  ultimately show ?thesis by blast
qed


subsection \<open>C1: one GLB file for each input\<close>

text \<open>
  Claim C1 says that \<open>N\<close> valid inputs in the downloads directory give \<open>N\<close> GLB files,
  named after them, and one completion line each. For the script
  \<^verbatim>\<open>/srv/[ab]/convert.py\<close>, whose downloads directory holds the one file
  \<^verbatim>\<open>table.usdz\<close>, the run finishes with two completion lines for the same path
  \<^verbatim>\<open>chair.glb\<close>, which holds at the end the scene of the second input, and no
  \<^verbatim>\<open>table.glb\<close> exists. (Lemma \<open>literal_dir_run\<close> has the claim for a script
  directory without magic in its path, when no call faults.)
\<close>

theorem bracket_dir_run:
  "snd (convert bracket_env ''/srv/[ab]/convert.py'' w_init) = Finished \<and>
   printed (calls (fst (convert bracket_env ''/srv/[ab]/convert.py'' w_init))) =
     [''DONE: /srv/[ab]/output/chair.glb'', ''DONE: /srv/[ab]/output/chair.glb''] \<and>
   file_at (snd (last (fst (convert bracket_env ''/srv/[ab]/convert.py'' w_init))))
     ''/srv/[ab]/output/table.glb'' = None \<and>
   file_at (snd (last (fst (convert bracket_env ''/srv/[ab]/convert.py'' w_init))))
     ''/srv/[ab]/output/chair.glb'' = Some [''/srv/b/downloads/chair.usdz'']"
proof -
  have "snd (convert bracket_env ''/srv/[ab]/convert.py'' w_init) = Finished" by code_simp
  moreover have "printed (calls (fst (convert bracket_env ''/srv/[ab]/convert.py'' w_init))) =
     [''DONE: /srv/[ab]/output/chair.glb'', ''DONE: /srv/[ab]/output/chair.glb'']" by code_simp
  moreover have "file_at (snd (last (fst (convert bracket_env ''/srv/[ab]/convert.py'' w_init))))
     ''/srv/[ab]/output/table.glb'' = None" by code_simp
  moreover have "file_at (snd (last (fst (convert bracket_env ''/srv/[ab]/convert.py'' w_init))))
     ''/srv/[ab]/output/chair.glb'' = Some [''/srv/b/downloads/chair.usdz'']" by code_simp
  ultimately show ?thesis by blast
qed

end
